theory Spec2Isabelle
  imports Main
begin

section \<open>Go strings: bytes, and the code points a range loop sees\<close>

text \<open>
  A Go string is a sequence of bytes; \<open>len\<close>, slicing and \<open>strings.HasPrefix\<close>
  work on bytes. A \<open>range\<close> loop over a string decodes UTF-8: each iteration yields the
  byte index of a code point and the code point itself; a byte that does not start a valid
  encoding yields U+FFFD and the loop moves on by one byte. A string is modelled as
  \<^typ>\<open>string\<close> (a list of 8-bit characters), a code point as \<^typ>\<open>int\<close> (the source
  uses Go's \<open>int\<close>; the offsets and lengths added below are bounded by the lengths of
  the input and of the literals, far from the bounds of \<open>int\<close>, so the integers are
  left unbounded).
\<close>

definition RuneError :: int where
  "RuneError = 0xFFFD"

definition byte :: "char \<Rightarrow> nat" where
  "byte c = of_char c"

definition cont :: "char \<Rightarrow> bool" where
  "cont c = (0x80 \<le> byte c \<and> byte c \<le> 0xBF)"

text \<open>
  The range of the second byte that the first byte of a three- or four-byte encoding admits
  (this excludes overlong forms, surrogates and values above U+10FFFF).
\<close>

definition second_lo :: "nat \<Rightarrow> nat" where
  "second_lo b0 = (if b0 = 0xE0 then 0xA0 else if b0 = 0xF0 then 0x90 else 0x80)"

definition second_hi :: "nat \<Rightarrow> nat" where
  "second_hi b0 = (if b0 = 0xED then 0x9F else if b0 = 0xF4 then 0x8F else 0xBF)"

text \<open>The first code point of a string and the number of bytes it takes.\<close>

fun DecodeRuneInString :: "string \<Rightarrow> int \<times> nat" where
  "DecodeRuneInString [] = (RuneError, 0)"
| "DecodeRuneInString (c0 # s) =
     (let b0 = byte c0 in
      if b0 < 0x80 then (int b0, 1)
      else if 0xC2 \<le> b0 \<and> b0 \<le> 0xDF then
        (case s of
           c1 # _ \<Rightarrow>
             if cont c1 then (int ((b0 mod 32) * 64 + byte c1 mod 64), 2)
             else (RuneError, 1)
         | _ \<Rightarrow> (RuneError, 1))
      else if 0xE0 \<le> b0 \<and> b0 \<le> 0xEF then
        (case s of
           c1 # c2 # _ \<Rightarrow>
             if second_lo b0 \<le> byte c1 \<and> byte c1 \<le> second_hi b0 \<and> cont c2
             then (int ((b0 mod 16) * 4096 + (byte c1 mod 64) * 64 + byte c2 mod 64), 3)
             else (RuneError, 1)
         | _ \<Rightarrow> (RuneError, 1))
      else if 0xF0 \<le> b0 \<and> b0 \<le> 0xF4 then
        (case s of
           c1 # c2 # c3 # _ \<Rightarrow>
             if second_lo b0 \<le> byte c1 \<and> byte c1 \<le> second_hi b0 \<and> cont c2 \<and> cont c3
             then (int ((b0 mod 8) * 262144 + (byte c1 mod 64) * 4096
                        + (byte c2 mod 64) * 64 + byte c3 mod 64), 4)
             else (RuneError, 1)
         | _ \<Rightarrow> (RuneError, 1))
      else (RuneError, 1))"

text \<open>
  What \<open>for o, v := range s\<close> iterates over: the pairs of byte index and code point, in
  order. The first argument is the byte index of the string's first byte.
\<close>

function range_string :: "nat \<Rightarrow> string \<Rightarrow> (nat \<times> int) list" where
  "range_string o' [] = []"
| "range_string o' (c # s) =
     (o', fst (DecodeRuneInString (c # s)))
       # range_string (o' + snd (DecodeRuneInString (c # s)))
           (drop (snd (DecodeRuneInString (c # s))) (c # s))"
  by pat_completeness auto
termination
proof (relation "measure (\<lambda>(o', s). length s)")
  show "wf (measure (\<lambda>(o', s). length s))" by simp
next
  fix o' :: nat and c :: char and s :: string
  have "1 \<le> snd (DecodeRuneInString (c # s))"
    by (auto simp: Let_def split: list.splits)
  then show "((o' + snd (DecodeRuneInString (c # s)),
               drop (snd (DecodeRuneInString (c # s))) (c # s)), (o', c # s))
             \<in> measure (\<lambda>(o', s). length s)"
    by simp
qed

text \<open>
  The conversion \<open>string(v)\<close> of a code point: its UTF-8 encoding, and the encoding of
  U+FFFD for a value that is not a code point.
\<close>

definition EncodeRune :: "int \<Rightarrow> string" where
  "EncodeRune r =
     (let n = nat r in
      if r < 0 \<or> 0x10FFFF < r \<or> (0xD800 \<le> r \<and> r \<le> 0xDFFF)
      then [char_of (0xEF :: nat), char_of (0xBF :: nat), char_of (0xBD :: nat)]
      else if n < 0x80 then [char_of n]
      else if n < 0x800 then [char_of (0xC0 + n div 64), char_of (0x80 + n mod 64)]
      else if n < 0x10000 then
        [char_of (0xE0 + n div 4096), char_of (0x80 + n div 64 mod 64),
         char_of (0x80 + n mod 64)]
      else
        [char_of (0xF0 + n div 262144), char_of (0x80 + n div 4096 mod 64),
         char_of (0x80 + n div 64 mod 64), char_of (0x80 + n mod 64)])"

text \<open>\<open>strings.HasPrefix(s, prefix)\<close>: a comparison of bytes.\<close>

definition HasPrefix :: "string \<Rightarrow> string \<Rightarrow> bool" where
  "HasPrefix s prefix = (length prefix \<le> length s \<and> take (length prefix) s = prefix)"

section \<open>Position, Spec, Output and the string vessel\<close>

record Position =
  Name :: string
  Line :: int
  Column :: int
  Offset :: int

text \<open>
  A \<open>Parser\<close> is a Go function value, and a \<open>Spec\<close> stores four of them. A function
  value is a reference to code: the Spec holds the reference (a number), and a table
  \<open>funcs\<close> from references to parsers says what calling it does. A reference outside the
  table is the nil function value, whose call panics.
\<close>

type_synonym funcval = nat

record Spec =
  CommentStart :: string
  CommentEnd :: string
  CommentLine :: string
  NestedComments :: bool
  IdentStart :: funcval
  IdentLetter :: funcval
  OpStart :: funcval
  OpLetter :: funcval
  ReservedNames :: "string list"
  ReservedOpNames :: "string list"
  CaseSensitive :: bool

text \<open>
  \<open>Output\<close> is \<open>interface{}\<close>. The dynamic types the library itself produces and
  asserts are a tag each: nil, an \<open>int\<close> (a code point), a string, a slice
  \<open>[]interface{}\<close> (what \<open>Vector.Data()\<close> returns) and a \<open>*vector.Vector\<close>.
\<close>

datatype Output =
    ONil
  | OInt int
  | OString string
  | OSlice "Output list"
  | OVector "Output list"

text \<open>
  The user state is any value (\<open>interface{}\<close>): a type parameter. The vessel holds the
  interface value itself, which is what \<open>GetState\<close> and \<open>SetState\<close> read and write.
\<close>

record 's StringVessel =
  state :: 's
  input :: string
  position :: Position
  spec :: Spec

text \<open>
  The ways a call can end without returning a value: a failed type assertion, a call of a
  nil function value, an index out of range. A call that never ends is the value
  \<open>None\<close>. Go mutates the vessel in place; here a call returns the vessel it leaves.
\<close>

datatype panic = TypeAssertion | NilFunc | IndexOutOfRange

type_synonym 's result = "(panic + Output \<times> bool \<times> 's StringVessel) option"

type_synonym 's Parser = "'s StringVessel \<Rightarrow> 's result"

subsection \<open>The methods of StringVessel\<close>

definition GetState :: "'s StringVessel \<Rightarrow> 's" where
  "GetState self = state self"

definition SetState :: "'s StringVessel \<Rightarrow> 's \<Rightarrow> 's StringVessel" where
  "SetState self st = self\<lparr>state := st\<rparr>"

fun GetInput_loop :: "string \<Rightarrow> int \<Rightarrow> int \<Rightarrow> (nat \<times> int) list \<Rightarrow> string" where
  "GetInput_loop inp off i [] = []"
| "GetInput_loop inp off i ((o', _) # rest) =
     (if i = off then drop o' inp else GetInput_loop inp off (i + 1) rest)"

definition GetInput :: "'s StringVessel \<Rightarrow> string" where
  "GetInput self =
     GetInput_loop (input self) (Offset (position self)) 0 (range_string 0 (input self))"

fun Get_loop :: "int \<Rightarrow> int \<Rightarrow> int \<Rightarrow> string \<Rightarrow> (nat \<times> int) list \<Rightarrow> string" where
  "Get_loop off i n s [] = s"
| "Get_loop off i n s ((_, v) # rest) =
     (if n \<ge> off then
        (if n > off + i then s else Get_loop off i (n + 1) (s @ EncodeRune v) rest)
      else Get_loop off i (n + 1) s rest)"

definition Get :: "'s StringVessel \<Rightarrow> int \<Rightarrow> string \<times> bool" where
  "Get self i =
     (if int (length (input self)) < Offset (position self) + i then ([], False)
      else (Get_loop (Offset (position self)) i 0 [] (range_string 0 (input self)), True))"

fun Next_loop :: "int \<Rightarrow> int \<Rightarrow> (nat \<times> int) list \<Rightarrow> int \<times> bool" where
  "Next_loop off i [] = (0, False)"
| "Next_loop off i ((_, v) # rest) =
     (if i = off then (v, True) else Next_loop off (i + 1) rest)"

definition Next :: "'s StringVessel \<Rightarrow> int \<times> bool" where
  "Next self =
     (if int (length (input self)) < Offset (position self) + 1 then (0, False)
      else Next_loop (Offset (position self)) 0 (range_string 0 (input self)))"

definition Pop :: "'s StringVessel \<Rightarrow> int \<Rightarrow> 's StringVessel" where
  "Pop self i = self\<lparr>position := (position self)\<lparr>Offset := Offset (position self) + i\<rparr>\<rparr>"

definition Push :: "'s StringVessel \<Rightarrow> int \<Rightarrow> 's StringVessel" where
  "Push self i = self\<lparr>position := (position self)\<lparr>Offset := Offset (position self) - i\<rparr>\<rparr>"

definition SetInput :: "'s StringVessel \<Rightarrow> string \<Rightarrow> 's StringVessel" where
  "SetInput self inp = self\<lparr>input := inp\<rparr>"

definition GetPosition :: "'s StringVessel \<Rightarrow> Position" where
  "GetPosition self = position self"

definition SetPosition :: "'s StringVessel \<Rightarrow> Position \<Rightarrow> 's StringVessel" where
  "SetPosition self pos = self\<lparr>position := pos\<rparr>"

definition GetSpec :: "'s StringVessel \<Rightarrow> Spec" where
  "GetSpec self = spec self"

definition SetSpec :: "'s StringVessel \<Rightarrow> Spec \<Rightarrow> 's StringVessel" where
  "SetSpec self sp = self\<lparr>spec := sp\<rparr>"

section \<open>The combinators\<close>

text \<open>
  The combinators are written against the \<open>Vessel\<close> interface; \<open>StringVessel\<close> is the
  implementation the repository has, and the calls below are its methods.
\<close>

definition Try :: "'s Parser \<Rightarrow> 's Parser" where
  "Try match ves =
     (let st = GetState ves; pos = GetPosition ves in
      case match ves of
        None \<Rightarrow> None
      | Some (Inl e) \<Rightarrow> Some (Inl e)
      | Some (Inr (out, ok, ves')) \<Rightarrow>
          if \<not> ok then Some (Inr (out, ok, SetPosition (SetState ves' st) pos))
          else Some (Inr (out, ok, ves')))"

definition Satisfy :: "(int \<Rightarrow> bool) \<Rightarrow> 's Parser" where
  "Satisfy check ves =
     (let (target, ok) = Next ves in
      if ok \<and> check target then Some (Inr (OInt target, True, Pop ves 1))
      else Some (Inr (ONil, False, ves)))"

text \<open>
  \<open>Many\<close>: the loop \<open>for { out, parsed := match(in); if !parsed { break }; ... }\<close>.
  Nothing bounds the number of rounds, so the loop is a partial function: \<open>None\<close> when
  it runs forever.
\<close>

partial_function (option) Many_loop ::
  "'s Parser \<Rightarrow> Output list \<Rightarrow> 's StringVessel \<Rightarrow> (panic + Output list \<times> 's StringVessel) option"
where
  "Many_loop match matches ves =
     (case match ves of
        None \<Rightarrow> None
      | Some (Inl e) \<Rightarrow> Some (Inl e)
      | Some (Inr (out, parsed, ves')) \<Rightarrow>
          if \<not> parsed then Some (Inr (matches, ves'))
          else Many_loop match (matches @ [out]) ves')"

declare Many_loop.simps [code]

definition Many :: "'s Parser \<Rightarrow> 's Parser" where
  "Many match ves =
     (case Many_loop match [] ves of
        None \<Rightarrow> None
      | Some (Inl e) \<Rightarrow> Some (Inl e)
      | Some (Inr (matches, ves')) \<Rightarrow> Some (Inr (OSlice matches, True, ves')))"

text \<open>
  \<open>unicode.IsSpace\<close> of Go's standard library: the code points with Unicode's
  White_Space property.
\<close>

definition unicode_IsSpace :: "int \<Rightarrow> bool" where
  "unicode_IsSpace r =
     (r \<in> {0x09, 0x0A, 0x0B, 0x0C, 0x0D, 0x20, 0x85, 0xA0,
            0x1680, 0x2028, 0x2029, 0x202F, 0x205F, 0x3000}
      \<or> (0x2000 \<le> r \<and> r \<le> 0x200A))"

definition Whitespace :: "'s Parser" where
  "Whitespace ves = Many (Satisfy unicode_IsSpace) ves"

definition Lexeme :: "'s Parser \<Rightarrow> 's Parser" where
  "Lexeme match ves =
     (case match ves of
        None \<Rightarrow> None
      | Some (Inl e) \<Rightarrow> Some (Inl e)
      | Some (Inr (out, matched, ves')) \<Rightarrow>
          (case Whitespace ves' of
             None \<Rightarrow> None
           | Some (Inl e) \<Rightarrow> Some (Inl e)
           | Some (Inr (_, _, ves'')) \<Rightarrow> Some (Inr (out, matched, ves''))))"

text \<open>\<open>SepBy\<close> returns the vector itself, \<open>Many\<close> the slice \<open>matches.Data()\<close>.\<close>

partial_function (option) SepBy_loop ::
  "'s Parser \<Rightarrow> 's Parser \<Rightarrow> Output list \<Rightarrow> 's StringVessel
     \<Rightarrow> (panic + Output list \<times> 's StringVessel) option"
where
  "SepBy_loop delim match matches ves =
     (case match ves of
        None \<Rightarrow> None
      | Some (Inl e) \<Rightarrow> Some (Inl e)
      | Some (Inr (out, parsed, ves')) \<Rightarrow>
          if \<not> parsed then Some (Inr (matches, ves'))
          else
            (case delim ves' of
               None \<Rightarrow> None
             | Some (Inl e) \<Rightarrow> Some (Inl e)
             | Some (Inr (_, sep, ves'')) \<Rightarrow>
                 if \<not> sep then Some (Inr (matches @ [out], ves''))
                 else SepBy_loop delim match (matches @ [out]) ves''))"

declare SepBy_loop.simps [code]

definition SepBy :: "'s Parser \<Rightarrow> 's Parser \<Rightarrow> 's Parser" where
  "SepBy delim match ves =
     (case SepBy_loop delim match [] ves of
        None \<Rightarrow> None
      | Some (Inl e) \<Rightarrow> Some (Inl e)
      | Some (Inr (matches, ves')) \<Rightarrow> Some (Inr (OVector matches, True, ves')))"

text \<open>
  \<open>Any\<close>, \<open>All\<close> and \<open>Collect\<close> take their parsers as a variadic argument and walk
  it by reflection, field by field, asserting that each field is a \<open>Parser\<close>: a list
  of parsers, walked in order. (\<open>All\<close> and
  \<open>Collect\<close> are constants of HOL, so the two parsers are \<open>All_p\<close> and
  \<open>Collect_p\<close> here.)
\<close>

fun Any :: "'s Parser list \<Rightarrow> 's Parser" where
  "Any [] ves = Some (Inr (ONil, False, ves))"
| "Any (parser # parsers) ves =
     (case parser ves of
        None \<Rightarrow> None
      | Some (Inl e) \<Rightarrow> Some (Inl e)
      | Some (Inr (match, ok, ves')) \<Rightarrow>
          if ok then Some (Inr (match, ok, ves')) else Any parsers ves')"

text \<open>\<open>All\<close> has named results \<open>match\<close> and \<open>ok\<close>, which start as nil and false.\<close>

fun All_loop :: "Output \<Rightarrow> bool \<Rightarrow> 's Parser list \<Rightarrow> 's Parser" where
  "All_loop match ok [] ves = Some (Inr (match, ok, ves))"
| "All_loop match ok (parser # parsers) ves =
     (case parser ves of
        None \<Rightarrow> None
      | Some (Inl e) \<Rightarrow> Some (Inl e)
      | Some (Inr (match', ok', ves')) \<Rightarrow>
          if \<not> ok' then Some (Inr (match', ok', ves'))
          else All_loop match' ok' parsers ves')"

definition All_p :: "'s Parser list \<Rightarrow> 's Parser" where
  "All_p parsers ves = All_loop ONil False parsers ves"

fun Collect_loop ::
  "Output list \<Rightarrow> 's Parser list \<Rightarrow> 's Parser" where
  "Collect_loop matches [] ves = Some (Inr (OVector matches, True, ves))"
| "Collect_loop matches (parser # parsers) ves =
     (case parser ves of
        None \<Rightarrow> None
      | Some (Inl e) \<Rightarrow> Some (Inl e)
      | Some (Inr (match, ok, ves')) \<Rightarrow>
          if \<not> ok then Some (Inr (ONil, False, ves'))
          else Collect_loop (matches @ [match]) parsers ves')"

definition Collect_p :: "'s Parser list \<Rightarrow> 's Parser" where
  "Collect_p parsers ves = Collect_loop [] parsers ves"

text \<open>
  \<open>Between\<close> asserts that the output of the inner parser is a vector and reads its
  element 1; both steps panic when they cannot be done.
\<close>

definition Between :: "'s Parser \<Rightarrow> 's Parser \<Rightarrow> 's Parser \<Rightarrow> 's Parser" where
  "Between begin_p end_p match ves =
     (case Try (Collect_p [begin_p, match, end_p]) ves of
        None \<Rightarrow> None
      | Some (Inl e) \<Rightarrow> Some (Inl e)
      | Some (Inr (parse, ok, ves')) \<Rightarrow>
          if \<not> ok then Some (Inr (ONil, False, ves'))
          else
            (case parse of
               OVector xs \<Rightarrow>
                 if 1 < length xs then Some (Inr (xs ! 1, True, ves'))
                 else Some (Inl IndexOutOfRange)
             | _ \<Rightarrow> Some (Inl TypeAssertion)))"

definition String :: "string \<Rightarrow> 's Parser" where
  "String str ves =
     (if HasPrefix (GetInput ves) str
      then Some (Inr (OString str, True, Pop ves (int (length str))))
      else Some (Inr (ONil, False, ves)))"

definition Symbol :: "string \<Rightarrow> 's Parser" where
  "Symbol str = Lexeme (String str)"

definition Parens :: "'s Parser \<Rightarrow> 's Parser" where
  "Parens match = Lexeme (Between (Symbol ''('') (Symbol '')'') match)"

text \<open>Calling a function value: the parser the table has for it, a panic for nil.\<close>

definition call :: "(funcval \<Rightarrow> 's Parser option) \<Rightarrow> funcval \<Rightarrow> 's Parser" where
  "call funcs f ves = (case funcs f of None \<Rightarrow> Some (Inl NilFunc) | Some p \<Rightarrow> p ves)"

text \<open>The loop \<open>rest[k] = v.(int)\<close> of \<open>Identifier\<close>: it panics at the first non-int.\<close>

fun ints_of :: "Output list \<Rightarrow> int list option" where
  "ints_of [] = Some []"
| "ints_of (OInt v # ns) = map_option ((#) v) (ints_of ns)"
| "ints_of (_ # ns) = None"

text \<open>
  \<open>Identifier\<close> has named results \<open>name\<close> and \<open>ok\<close>; its bare \<open>return\<close>s give
  back nil and the \<open>ok\<close> of the last call. \<open>string(rest)\<close> of a slice of code points
  is the concatenation of their encodings.
\<close>

definition Identifier :: "(funcval \<Rightarrow> 's Parser option) \<Rightarrow> 's Parser" where
  "Identifier funcs ves =
     (let sp = GetSpec ves in
      case call funcs (IdentStart sp) ves of
        None \<Rightarrow> None
      | Some (Inl e) \<Rightarrow> Some (Inl e)
      | Some (Inr (n, ok, ves1)) \<Rightarrow>
          if \<not> ok then Some (Inr (ONil, ok, ves1))
          else
            (case Many (call funcs (IdentLetter sp)) ves1 of
               None \<Rightarrow> None
             | Some (Inl e) \<Rightarrow> Some (Inl e)
             | Some (Inr (ns, ok, ves2)) \<Rightarrow>
                 if \<not> ok then Some (Inr (ONil, ok, ves2))
                 else
                   (case ns of
                      OSlice xs \<Rightarrow>
                        (case ints_of xs of
                           None \<Rightarrow> Some (Inl TypeAssertion)
                         | Some rest \<Rightarrow>
                             (case n of
                                OInt c \<Rightarrow>
                                  Some (Inr (OString (EncodeRune c @ concat (map EncodeRune rest)),
                                             ok, ves2))
                              | _ \<Rightarrow> Some (Inl TypeAssertion)))
                    | _ \<Rightarrow> Some (Inl TypeAssertion))))"

text \<open>
  \<open>R\<close> takes a pointer to a parser variable and calls what the variable holds when the
  parser runs: a reference into the table, looked up at the call.
\<close>

definition R :: "(funcval \<Rightarrow> 's Parser option) \<Rightarrow> funcval \<Rightarrow> 's Parser" where
  "R funcs parser ves = call funcs parser ves"

section \<open>Notions the properties are stated with\<close>

text \<open>
  The elements of an input are its code points, as a \<open>range\<close> loop yields them; the
  elements that remain are those from the offset on (none when the offset is negative or
  past the end).
\<close>

definition runes :: "string \<Rightarrow> int list" where
  "runes s = map snd (range_string 0 s)"

definition pending :: "'s StringVessel \<Rightarrow> int list" where
  "pending ves =
     (if 0 \<le> Offset (position ves) then drop (nat (Offset (position ves))) (runes (input ves))
      else [])"

text \<open>
  The rounds of \<open>Many\<close>, as a relation: from a vessel, the outputs of the successful
  calls of the parser, in order, up to its first failure, and the vessel that failure
  leaves.
\<close>

inductive Many_rounds ::
  "'s Parser \<Rightarrow> 's StringVessel \<Rightarrow> Output list \<Rightarrow> 's StringVessel \<Rightarrow> bool"
  for match :: "'s Parser"
where
  Many_stop:
    "match ves = Some (Inr (out, False, ves1)) \<Longrightarrow> Many_rounds match ves [] ves1"
| Many_step:
    "match ves = Some (Inr (out, True, ves1)) \<Longrightarrow> Many_rounds match ves1 outs ves2
       \<Longrightarrow> Many_rounds match ves (out # outs) ves2"

code_pred (modes: i \<Rightarrow> i \<Rightarrow> o \<Rightarrow> o \<Rightarrow> bool) Many_rounds .

text \<open>
  The rounds of \<open>SepBy\<close>: the parser, then the delimiter, until one of the two fails;
  the outputs are the parser's.
\<close>

inductive SepBy_rounds ::
  "'s Parser \<Rightarrow> 's Parser \<Rightarrow> 's StringVessel \<Rightarrow> Output list \<Rightarrow> 's StringVessel \<Rightarrow> bool"
  for delim :: "'s Parser" and match :: "'s Parser"
where
  SepBy_match_fails:
    "match ves = Some (Inr (out, False, ves1)) \<Longrightarrow> SepBy_rounds delim match ves [] ves1"
| SepBy_delim_fails:
    "match ves = Some (Inr (out, True, ves1)) \<Longrightarrow> delim ves1 = Some (Inr (d, False, ves2))
       \<Longrightarrow> SepBy_rounds delim match ves [out] ves2"
| SepBy_round:
    "match ves = Some (Inr (out, True, ves1)) \<Longrightarrow> delim ves1 = Some (Inr (d, True, ves2))
       \<Longrightarrow> SepBy_rounds delim match ves2 outs ves3
       \<Longrightarrow> SepBy_rounds delim match ves (out # outs) ves3"

code_pred (modes: i \<Rightarrow> i \<Rightarrow> i \<Rightarrow> o \<Rightarrow> o \<Rightarrow> bool) SepBy_rounds .

text \<open>A parser keeps the frame when no call of it that returns changes input or Spec.\<close>

definition keeps_frame :: "'s Parser \<Rightarrow> bool" where
  "keeps_frame p =
     (\<forall>ves out ok ves1. p ves = Some (Inr (out, ok, ves1))
        \<longrightarrow> input ves1 = input ves \<and> spec ves1 = spec ves)"

subsection \<open>Concrete inputs\<close>

definition example_spec :: Spec where
  "example_spec =
     \<lparr>CommentStart = ''/*'', CommentEnd = ''*/'', CommentLine = ''//'', NestedComments = False,
      IdentStart = 0, IdentLetter = 1, OpStart = 2, OpLetter = 3,
      ReservedNames = [], ReservedOpNames = [], CaseSensitive = True\<rparr>"

definition example_vessel :: "string \<Rightarrow> nat StringVessel" where
  "example_vessel s =
     \<lparr>state = 0, input = s,
      position = \<lparr>Name = ''example'', Line = 1, Column = 1, Offset = 0\<rparr>,
      spec = example_spec\<rparr>"

definition is_letter :: "int \<Rightarrow> bool" where
  "is_letter c = ((0x41 \<le> c \<and> c \<le> 0x5A) \<or> (0x61 \<le> c \<and> c \<le> 0x7A))"

definition is_letter_or_digit :: "int \<Rightarrow> bool" where
  "is_letter_or_digit c = (is_letter c \<or> (0x30 \<le> c \<and> c \<le> 0x39))"

text \<open>Classifiers for identifiers, as a grammar would put them into its Spec.\<close>

definition example_funcs :: "funcval \<Rightarrow> nat Parser option" where
  "example_funcs = [0 \<mapsto> Satisfy is_letter, 1 \<mapsto> Satisfy is_letter_or_digit]"


text \<open>A parser that consumes two elements, overwrites the user state, and then fails.\<close>

definition consume_then_fail :: "nat Parser" where
  "consume_then_fail ves = Some (Inr (ONil, False, SetState (Pop ves 2) 7))"

section \<open>The string vessel's cursor\<close>

lemma DecodeRuneInString_width:
  "1 \<le> snd (DecodeRuneInString (c # s)) \<and> snd (DecodeRuneInString (c # s)) \<le> length (c # s)"
  by (auto simp: Let_def split: list.splits)

lemma length_range_string: "length (range_string o' s) \<le> length s"
proof (induction o' s rule: range_string.induct)
  case (1 o')
  show ?case by simp
next
  case (2 o' c s)
  have "1 \<le> snd (DecodeRuneInString (c # s))"
    using DecodeRuneInString_width by blast
  with 2 show ?case by simp
qed

lemma Next_loop_eq:
  "Next_loop off i rs =
     (if i \<le> off \<and> off - i < int (length rs) then (snd (rs ! nat (off - i)), True)
      else (0, False))"
proof (induction rs arbitrary: i)
  case Nil
  show ?case by simp
next
  case (Cons r rs)
  obtain o' v where r: "r = (o', v)" by (cases r)
  show ?case
  proof (cases "i = off")
    case True
    then show ?thesis by (simp add: r)
  next
    case False
    have "nat (off - i) = Suc (nat (off - (i + 1)))" if "i < off"
      using that by simp
    with False show ?thesis
      by (auto simp: r Cons.IH)
  qed
qed

text \<open>
  \<open>Next\<close> yields the first remaining element. Its test on the byte length never
  rejects an offset that has an element, a string having no more code points than bytes.
\<close>

lemma Next_eq:
  "Next ves = (case pending ves of [] \<Rightarrow> (0, False) | x # _ \<Rightarrow> (x, True))"
proof -
  let ?off = "Offset (position ves)"
  let ?rs = "range_string 0 (input ves)"
  have len: "int (length ?rs) \<le> int (length (input ves))"
    using length_range_string [of 0 "input ves"] by simp
  show ?thesis
  proof (cases "0 \<le> ?off \<and> ?off < int (length ?rs)")
    case True
    then have "nat ?off < length (runes (input ves))"
      by (simp add: runes_def nat_less_iff)
    then have "pending ves
        = runes (input ves) ! nat ?off # drop (Suc (nat ?off)) (runes (input ves))"
      using True by (simp add: pending_def Cons_nth_drop_Suc)
    moreover have "nat ?off < length ?rs"
      using True by (simp add: nat_less_iff)
    ultimately show ?thesis
      using True len by (simp add: Next_def Next_loop_eq runes_def)
  next
    case False
    then have "pending ves = []"
      by (auto simp: pending_def runes_def)
    with False len show ?thesis
      by (auto simp: Next_def Next_loop_eq)
  qed
qed

lemma pending_Pop:
  assumes p: "pending ves = x # xs"
  shows "pending (Pop ves 1) = xs"
proof -
  let ?off = "Offset (position ves)"
  from p have nonneg: "0 \<le> ?off"
    by (auto simp: pending_def split: if_splits)
  with p have d: "drop (nat ?off) (runes (input ves)) = x # xs"
    by (simp add: pending_def)
  have "nat (?off + 1) = Suc (nat ?off)"
    using nonneg by simp
  moreover have "drop (Suc (nat ?off)) (runes (input ves)) = xs"
    using d by (metis drop_Suc list.sel(3) tl_drop)
  ultimately show ?thesis
    using nonneg by (simp add: pending_def Pop_def)
qed

lemma Pop_0: "Pop ves 0 = ves"
  by (simp add: Pop_def)

lemma Pop_Pop: "Pop (Pop ves i) j = Pop ves (i + j)"
  by (simp add: Pop_def)

lemma Satisfy_eq:
  "Satisfy check ves =
     (case pending ves of
        [] \<Rightarrow> Some (Inr (ONil, False, ves))
      | x # _ \<Rightarrow>
          if check x then Some (Inr (OInt x, True, Pop ves 1))
          else Some (Inr (ONil, False, ves)))"
  by (simp add: Satisfy_def Next_eq split: list.splits)

section \<open>Try\<close>

text \<open>
  C1. Whatever the parser \<open>match\<close> did to the vessel: when it fails, the vessel that
  \<open>Try match\<close> leaves has the state and the position the vessel had before the call
  (and otherwise is as \<open>match\<close> left it); when it succeeds, \<open>Try match\<close> leaves the
  vessel exactly as \<open>match\<close> left it. Output and match flag are those of \<open>match\<close>.
\<close>

theorem Try_restores_on_failure:
  assumes "match ves = Some (Inr (out, ok, ves1))"
  shows "\<exists>ves2. Try match ves = Some (Inr (out, ok, ves2))
           \<and> (if ok then ves2 = ves1
               else GetState ves2 = GetState ves \<and> GetPosition ves2 = GetPosition ves
                    \<and> input ves2 = input ves1 \<and> spec ves2 = spec ves1)"
  using assms
  by (cases ok) (simp_all add: Try_def GetState_def GetPosition_def SetState_def SetPosition_def)

theorem Try_restores_on_failure_witness:
  "(\<exists>ves2. Try consume_then_fail (example_vessel ''abc'') = Some (Inr (ONil, False, ves2))
     \<and> GetState ves2 = 0 \<and> Offset (GetPosition ves2) = 0
     \<and> Offset (position (SetState (Pop (example_vessel ''abc'') 2) 7)) = 2
     \<and> state (SetState (Pop (example_vessel ''abc'') 2) 7) = 7)
   \<and> Try (String ''ab'') (example_vessel ''abc'')
       = Some (Inr (OString ''ab'', True, Pop (example_vessel ''abc'') 2))"
proof -
  have "consume_then_fail (example_vessel ''abc'')
          = Some (Inr (ONil, False, SetState (Pop (example_vessel ''abc'') 2) 7))"
    by (simp add: consume_then_fail_def)
  from Try_restores_on_failure [of consume_then_fail "example_vessel ''abc''", OF this]
  have "\<exists>ves2. Try consume_then_fail (example_vessel ''abc'') = Some (Inr (ONil, False, ves2))
     \<and> GetState ves2 = 0 \<and> Offset (GetPosition ves2) = 0
     \<and> Offset (position (SetState (Pop (example_vessel ''abc'') 2) 7)) = 2
     \<and> state (SetState (Pop (example_vessel ''abc'') 2) 7) = 7"
    by (auto simp: example_vessel_def GetState_def GetPosition_def SetState_def Pop_def)
  moreover have "String ''ab'' (example_vessel ''abc'')
          = Some (Inr (OString ''ab'', True, Pop (example_vessel ''abc'') 2))"
    by code_simp
  from Try_restores_on_failure [of "String ''ab''" "example_vessel ''abc''", OF this]
  have "Try (String ''ab'') (example_vessel ''abc'')
       = Some (Inr (OString ''ab'', True, Pop (example_vessel ''abc'') 2))"
    by simp
  ultimately show ?thesis by blast
qed

section \<open>Satisfy\<close>

text \<open>
  C5. \<open>Satisfy check\<close> looks at the first remaining element. When there is one and
  \<open>check\<close> holds for it, the parser succeeds with that element as output and the offset
  one further; when there is none, or \<open>check\<close> does not hold for it, the parser fails
  and leaves the vessel, the offset with it, as it was.
\<close>

theorem Satisfy_first_element:
  "Satisfy check ves =
     (if 0 \<le> Offset (position ves)
         \<and> Offset (position ves) < int (length (runes (input ves)))
         \<and> check (runes (input ves) ! nat (Offset (position ves)))
      then Some (Inr (OInt (runes (input ves) ! nat (Offset (position ves))), True,
                      ves\<lparr>position := (position ves)\<lparr>Offset := Offset (position ves) + 1\<rparr>\<rparr>))
      else Some (Inr (ONil, False, ves)))"
proof (cases "0 \<le> Offset (position ves)
                \<and> Offset (position ves) < int (length (runes (input ves)))")
  case True
  then have "nat (Offset (position ves)) < length (runes (input ves))"
    by (simp add: nat_less_iff)
  then have "pending ves = runes (input ves) ! nat (Offset (position ves))
               # drop (Suc (nat (Offset (position ves)))) (runes (input ves))"
    using True by (simp add: pending_def Cons_nth_drop_Suc)
  with True show ?thesis
    by (simp add: Satisfy_eq Pop_def)
next
  case False
  then have "pending ves = []"
    by (auto simp: pending_def)
  with False show ?thesis
    by (auto simp: Satisfy_eq)
qed

section \<open>Many\<close>

text \<open>The loop of \<open>Many\<close> returns what the rounds give, and only that.\<close>

lemma Many_loop_rounds:
  "Many_rounds match ves outs ves1 \<Longrightarrow> Many_loop match acc ves = Some (Inr (acc @ outs, ves1))"
proof (induction arbitrary: acc rule: Many_rounds.induct)
  case (Many_stop ves out ves1)
  then show ?case
    by (subst Many_loop.simps) simp
next
  case (Many_step ves out ves1 outs ves2)
  from Many_step.hyps(1) Many_step.IH [of "acc @ [out]"] show ?case
    by (subst Many_loop.simps) simp
qed

lemma Many_loop_returns:
  assumes ret: "Many_loop match acc ves = Some r"
  shows "\<forall>ms ves1. r = Inr (ms, ves1)
           \<longrightarrow> (\<exists>outs. ms = acc @ outs \<and> Many_rounds match ves outs ves1)"
  apply (rule Many_loop.raw_induct
      [where P = "\<lambda>match acc ves r. \<forall>ms ves1. r = Inr (ms, ves1)
           \<longrightarrow> (\<exists>outs. ms = acc @ outs \<and> Many_rounds match ves outs ves1)", OF _ ret])
  subgoal premises prems for loop match acc ves r
  proof (cases "match ves")
    case None
    with prems(2) show ?thesis by simp
  next
    case (Some a)
    show ?thesis
    proof (cases a)
      case (Inl e)
      with Some prems(2) show ?thesis by auto
    next
      case (Inr b)
      obtain out parsed ves' where b: "b = (out, parsed, ves')" by (cases b)
      show ?thesis
      proof (cases parsed)
        case True
        then have m: "match ves = Some (Inr (out, True, ves'))"
          using Some Inr b by simp
        with prems(2) have "loop match (acc @ [out]) ves' = Some r" by simp
        from prems(1) [OF this]
        have IH: "\<forall>ms ves1. r = Inr (ms, ves1)
                    \<longrightarrow> (\<exists>outs. ms = (acc @ [out]) @ outs \<and> Many_rounds match ves' outs ves1)" .
        show ?thesis
        proof (intro allI impI)
          fix ms ves1
          assume "r = Inr (ms, ves1)"
          with IH obtain outs where "ms = (acc @ [out]) @ outs"
            and "Many_rounds match ves' outs ves1" by blast
          then have "ms = acc @ (out # outs)" and "Many_rounds match ves (out # outs) ves1"
            using Many_rounds.Many_step [of match ves out ves' outs ves1] m by simp_all
          then show "\<exists>outs. ms = acc @ outs \<and> Many_rounds match ves outs ves1" by blast
        qed
      next
        case False
        then have m: "match ves = Some (Inr (out, False, ves'))"
          using Some Inr b by simp
        with prems(2) have "r = Inr (acc, ves')" by simp
        with m show ?thesis
          by (auto intro: Many_rounds.Many_stop)
      qed
    qed
  qed
  done

text \<open>A parser that succeeds on every vessel keeps the loop running for ever.\<close>

lemma Many_loop_never_returns:
  assumes ret: "Many_loop match acc ves = Some r"
  shows "\<not> (\<forall>v. \<exists>out v'. match v = Some (Inr (out, True, v')))"
  apply (rule Many_loop.raw_induct
      [where P = "\<lambda>match acc ves r. \<not> (\<forall>v. \<exists>out v'. match v = Some (Inr (out, True, v')))",
       OF _ ret])
  subgoal premises prems for loop match acc ves r
  proof
    assume always: "\<forall>v. \<exists>out v'. match v = Some (Inr (out, True, v'))"
    then obtain out v' where "match ves = Some (Inr (out, True, v'))" by blast
    with prems(2) have "loop match (acc @ [out]) v' = Some r" by simp
    from prems(1) [OF this] always show False by simp
  qed
  done

lemma String_empty: "String [] ves = Some (Inr (OString [], True, ves))"
  by (simp add: String_def HasPrefix_def Pop_0)

text \<open>
  C2 (amended). \<open>Many match\<close> never reports failure: a call that returns has the match
  flag true and, as output, the slice of the outputs of the successful calls of \<open>match\<close>,
  in order, possibly empty. It returns exactly when \<open>match\<close>, called again and again,
  fails after finitely many successes; with a parser that succeeds on every vessel it
  does not return.
\<close>

theorem Many_returns_iff:
  "(Many match ves = Some (Inr (out, ok, ves1))
      \<longleftrightarrow> ok \<and> (\<exists>outs. out = OSlice outs \<and> Many_rounds match ves outs ves1))
   \<and> ((\<forall>v. \<exists>out' v'. match v = Some (Inr (out', True, v'))) \<longrightarrow> Many match ves = None)"
proof (intro conjI impI)
  show "Many match ves = Some (Inr (out, ok, ves1))
      \<longleftrightarrow> ok \<and> (\<exists>outs. out = OSlice outs \<and> Many_rounds match ves outs ves1)"
  proof
    assume "Many match ves = Some (Inr (out, ok, ves1))"
    then obtain ms where l: "Many_loop match [] ves = Some (Inr (ms, ves1))"
      and o: "out = OSlice ms" "ok"
      by (auto simp: Many_def split: option.splits sum.splits)
    from Many_loop_returns [OF l] o
    show "ok \<and> (\<exists>outs. out = OSlice outs \<and> Many_rounds match ves outs ves1)"
      by simp
  next
    assume "ok \<and> (\<exists>outs. out = OSlice outs \<and> Many_rounds match ves outs ves1)"
    then obtain outs where "ok" "out = OSlice outs" "Many_rounds match ves outs ves1"
      by blast
    with Many_loop_rounds [of match ves outs ves1 "[]"]
    show "Many match ves = Some (Inr (out, ok, ves1))"
      by (simp add: Many_def)
  qed
next
  assume always: "\<forall>v. \<exists>out' v'. match v = Some (Inr (out', True, v'))"
  show "Many match ves = None"
  proof (cases "Many_loop match [] ves")
    case None
    then show ?thesis by (simp add: Many_def)
  next
    case (Some r)
    from Many_loop_never_returns [OF this] always show ?thesis by simp
  qed
qed

theorem Many_returns_iff_witness:
  "Many (Satisfy is_letter) (example_vessel ''ab1'')
     = Some (Inr (OSlice [OInt 0x61, OInt 0x62], True, Pop (example_vessel ''ab1'') 2))
   \<and> Many (Satisfy is_letter) (example_vessel [])
     = Some (Inr (OSlice [], True, example_vessel []))
   \<and> Many (String []) (example_vessel ''ab1'') = None"
proof -
  let ?v = "example_vessel ''ab1''"
  let ?e = "example_vessel []"
  have s0: "Satisfy is_letter ?v = Some (Inr (OInt 0x61, True, Pop ?v 1))"
    by code_simp
  have s1: "Satisfy is_letter (Pop ?v 1) = Some (Inr (OInt 0x62, True, Pop ?v 2))"
    by code_simp
  have s2: "Satisfy is_letter (Pop ?v 2) = Some (Inr (ONil, False, Pop ?v 2))"
    by code_simp
  have e0: "Satisfy is_letter ?e = Some (Inr (ONil, False, ?e))"
    by code_simp
  have r2: "Many_rounds (Satisfy is_letter) (Pop ?v 2) [] (Pop ?v 2)"
    using Many_rounds.Many_stop [of "Satisfy is_letter" "Pop ?v 2" ONil "Pop ?v 2"] s2 by simp
  have r1: "Many_rounds (Satisfy is_letter) (Pop ?v 1) [OInt 0x62] (Pop ?v 2)"
    using Many_rounds.Many_step
      [of "Satisfy is_letter" "Pop ?v 1" "OInt 0x62" "Pop ?v 2" "[]" "Pop ?v 2"] s1 r2
    by simp
  have r0: "Many_rounds (Satisfy is_letter) ?v [OInt 0x61, OInt 0x62] (Pop ?v 2)"
    using Many_rounds.Many_step
      [of "Satisfy is_letter" ?v "OInt 0x61" "Pop ?v 1" "[OInt 0x62]" "Pop ?v 2"] s0 r1
    by simp
  have re: "Many_rounds (Satisfy is_letter) ?e [] ?e"
    using Many_rounds.Many_stop [of "Satisfy is_letter" ?e ONil ?e] e0 by simp
  have al: "\<forall>v :: nat StringVessel. \<exists>out' v'. String [] v = Some (Inr (out', True, v'))"
    by (simp add: String_empty)
  from al Many_returns_iff [of "String []" ?v]
  have "Many (String []) ?v = None" by blast
  with r0 re
    Many_returns_iff [of "Satisfy is_letter" ?v "OSlice [OInt 0x61, OInt 0x62]" True "Pop ?v 2"]
    Many_returns_iff [of "Satisfy is_letter" ?e "OSlice []" True ?e]
  show ?thesis by simp
qed

text \<open>
  C2 as stated, with every parser and "returns", fails for a parser that never fails:
  \<open>String("")\<close> succeeds on every vessel without consuming, and \<open>Many\<close> of it
  runs for ever.
\<close>

theorem Many_String_empty_never_returns:
  "Many (String []) (example_vessel ''abc'') = None"
proof (cases "Many_loop (String []) [] (example_vessel ''abc'')")
  case None
  then show ?thesis by (simp add: Many_def)
next
  case (Some r)
  from Many_loop_never_returns [OF this] show ?thesis
    by (simp add: String_empty)
qed

section \<open>SepBy\<close>

lemma SepBy_loop_rounds:
  "SepBy_rounds delim match ves outs ves1
     \<Longrightarrow> SepBy_loop delim match acc ves = Some (Inr (acc @ outs, ves1))"
proof (induction arbitrary: acc rule: SepBy_rounds.induct)
  case (SepBy_match_fails ves out ves1)
  then show ?case
    by (subst SepBy_loop.simps) simp
next
  case (SepBy_delim_fails ves out ves1 d ves2)
  then show ?case
    by (subst SepBy_loop.simps) simp
next
  case (SepBy_round ves out ves1 d ves2 outs ves3)
  from SepBy_round.hyps(1,2) SepBy_round.IH [of "acc @ [out]"] show ?case
    by (subst SepBy_loop.simps) simp
qed

lemma SepBy_loop_returns:
  assumes ret: "SepBy_loop delim match acc ves = Some r"
  shows "\<forall>ms ves1. r = Inr (ms, ves1)
           \<longrightarrow> (\<exists>outs. ms = acc @ outs \<and> SepBy_rounds delim match ves outs ves1)"
  apply (rule SepBy_loop.raw_induct
      [where P = "\<lambda>delim match acc ves r. \<forall>ms ves1. r = Inr (ms, ves1)
           \<longrightarrow> (\<exists>outs. ms = acc @ outs \<and> SepBy_rounds delim match ves outs ves1)", OF _ ret])
  subgoal premises prems for loop delim match acc ves r
  proof (cases "match ves")
    case None
    with prems(2) show ?thesis by simp
  next
    case (Some a)
    show ?thesis
    proof (cases a)
      case (Inl e)
      with Some prems(2) show ?thesis by auto
    next
      case (Inr b)
      obtain out parsed ves' where b: "b = (out, parsed, ves')" by (cases b)
      show ?thesis
      proof (cases parsed)
        case False
        then have m: "match ves = Some (Inr (out, False, ves'))"
          using Some Inr b by simp
        with prems(2) have "r = Inr (acc, ves')" by simp
        with SepBy_rounds.SepBy_match_fails [of match ves out ves' delim] m show ?thesis
          by simp
      next
        case True
        then have m: "match ves = Some (Inr (out, True, ves'))"
          using Some Inr b by simp
        show ?thesis
        proof (cases "delim ves'")
          case None
          with m prems(2) show ?thesis by simp
        next
          case (Some a')
          show ?thesis
          proof (cases a')
            case (Inl e)
            with Some m prems(2) show ?thesis by auto
          next
            case (Inr b')
            obtain d sep ves'' where b': "b' = (d, sep, ves'')" by (cases b')
            show ?thesis
            proof (cases sep)
              case False
              then have dl: "delim ves' = Some (Inr (d, False, ves''))"
                using Some Inr b' by simp
              with m prems(2) have "r = Inr (acc @ [out], ves'')" by simp
              with SepBy_rounds.SepBy_delim_fails [of match ves out ves' delim d ves''] m dl
              show ?thesis by simp
            next
              case True
              then have dl: "delim ves' = Some (Inr (d, True, ves''))"
                using Some Inr b' by simp
              with m prems(2) have "loop delim match (acc @ [out]) ves'' = Some r" by simp
              from prems(1) [OF this]
              have IH: "\<forall>ms ves1. r = Inr (ms, ves1)
                    \<longrightarrow> (\<exists>outs. ms = (acc @ [out]) @ outs
                           \<and> SepBy_rounds delim match ves'' outs ves1)" .
              show ?thesis
              proof (intro allI impI)
                fix ms ves1
                assume "r = Inr (ms, ves1)"
                with IH obtain outs where "ms = (acc @ [out]) @ outs"
                  and "SepBy_rounds delim match ves'' outs ves1" by blast
                then have "ms = acc @ (out # outs)"
                  and "SepBy_rounds delim match ves (out # outs) ves1"
                  using SepBy_rounds.SepBy_round [of match ves out ves' delim d ves'' outs ves1]
                    m dl by simp_all
                then show "\<exists>outs. ms = acc @ outs \<and> SepBy_rounds delim match ves outs ves1"
                  by blast
              qed
            qed
          qed
        qed
      qed
    qed
  qed
  done

lemma SepBy_loop_never_returns:
  assumes ret: "SepBy_loop delim match acc ves = Some r"
  shows "\<not> ((\<forall>v. \<exists>out v'. match v = Some (Inr (out, True, v')))
            \<and> (\<forall>v. \<exists>out v'. delim v = Some (Inr (out, True, v'))))"
  apply (rule SepBy_loop.raw_induct
      [where P = "\<lambda>delim match acc ves r.
           \<not> ((\<forall>v. \<exists>out v'. match v = Some (Inr (out, True, v')))
            \<and> (\<forall>v. \<exists>out v'. delim v = Some (Inr (out, True, v'))))",
       OF _ ret])
  subgoal premises prems for loop delim match acc ves r
  proof
    assume always: "(\<forall>v. \<exists>out v'. match v = Some (Inr (out, True, v')))
            \<and> (\<forall>v. \<exists>out v'. delim v = Some (Inr (out, True, v')))"
    then obtain out v' where m: "match ves = Some (Inr (out, True, v'))" by blast
    from always obtain d v'' where "delim v' = Some (Inr (d, True, v''))" by blast
    with m prems(2) have "loop delim match (acc @ [out]) v'' = Some r" by simp
    from prems(1) [OF this] always show False by simp
  qed
  done

text \<open>
  C7 (amended). \<open>SepBy delim match\<close> never reports failure: a call that returns has the
  match flag true and, as output, the vector of the outputs of \<open>match\<close>, in order. It
  returns exactly when, after finitely many rounds of \<open>match\<close> then \<open>delim\<close>, one of
  the two fails, and the loop stops at that failure; when neither ever fails it does not
  return. On the input \<open>a,a,a,\<close> with \<open>match\<close> the literal \<open>a\<close> and \<open>delim\<close> the
  literal comma it returns three matches and succeeds, the offset after the last comma.
\<close>

theorem SepBy_returns_iff:
  "(SepBy delim match ves = Some (Inr (out, ok, ves1))
      \<longleftrightarrow> ok \<and> (\<exists>outs. out = OVector outs \<and> SepBy_rounds delim match ves outs ves1))
   \<and> ((\<forall>v. \<exists>out' v'. match v = Some (Inr (out', True, v')))
        \<and> (\<forall>v. \<exists>out' v'. delim v = Some (Inr (out', True, v')))
        \<longrightarrow> SepBy delim match ves = None)
   \<and> (input ves = ''a,a,a,'' \<and> Offset (position ves) = 0
        \<longrightarrow> SepBy (String '','') (String ''a'') ves
            = Some (Inr (OVector [OString ''a'', OString ''a'', OString ''a''], True,
                         Pop ves 6)))"
proof (intro conjI impI)
  show "SepBy delim match ves = Some (Inr (out, ok, ves1))
      \<longleftrightarrow> ok \<and> (\<exists>outs. out = OVector outs \<and> SepBy_rounds delim match ves outs ves1)"
  proof
    assume "SepBy delim match ves = Some (Inr (out, ok, ves1))"
    then obtain ms where l: "SepBy_loop delim match [] ves = Some (Inr (ms, ves1))"
      and o: "out = OVector ms" "ok"
      by (auto simp: SepBy_def split: option.splits sum.splits)
    from SepBy_loop_returns [OF l] o
    show "ok \<and> (\<exists>outs. out = OVector outs \<and> SepBy_rounds delim match ves outs ves1)"
      by simp
  next
    assume "ok \<and> (\<exists>outs. out = OVector outs \<and> SepBy_rounds delim match ves outs ves1)"
    then obtain outs where "ok" "out = OVector outs"
      "SepBy_rounds delim match ves outs ves1"
      by blast
    with SepBy_loop_rounds [of delim match ves outs ves1 "[]"]
    show "SepBy delim match ves = Some (Inr (out, ok, ves1))"
      by (simp add: SepBy_def)
  qed
next
  assume always: "(\<forall>v. \<exists>out' v'. match v = Some (Inr (out', True, v')))
        \<and> (\<forall>v. \<exists>out' v'. delim v = Some (Inr (out', True, v')))"
  show "SepBy delim match ves = None"
  proof (cases "SepBy_loop delim match [] ves")
    case None
    then show ?thesis by (simp add: SepBy_def)
  next
    case (Some r)
    from SepBy_loop_never_returns [OF this] always show ?thesis by simp
  qed
next
  assume "input ves = ''a,a,a,'' \<and> Offset (position ves) = 0"
  then show "SepBy (String '','') (String ''a'') ves
            = Some (Inr (OVector [OString ''a'', OString ''a'', OString ''a''], True,
                         Pop ves 6))"
    by (simp add: SepBy_def SepBy_loop.simps String_def GetInput_def HasPrefix_def Pop_def
          byte_def)
qed

theorem SepBy_returns_iff_witness:
  "SepBy (String '','') (String ''a'') (example_vessel ''a,a,a,'')
     = Some (Inr (OVector [OString ''a'', OString ''a'', OString ''a''], True,
                  Pop (example_vessel ''a,a,a,'') 6))
   \<and> SepBy_rounds (String '','') (String ''a'') (example_vessel ''a,a,a,'')
        [OString ''a'', OString ''a'', OString ''a''] (Pop (example_vessel ''a,a,a,'') 6)
   \<and> Offset (position (Pop (example_vessel ''a,a,a,'') 6)) = 6
   \<and> SepBy (String []) (String []) (example_vessel ''a'') = None"
proof -
  let ?v = "example_vessel ''a,a,a,''"
  have i: "input ?v = ''a,a,a,'' \<and> Offset (position ?v) = 0"
    by (simp add: example_vessel_def)
  note t = SepBy_returns_iff [of "String '',''" "String ''a''" ?v
      "OVector [OString ''a'', OString ''a'', OString ''a'']" True "Pop ?v 6"]
  from t i have r: "SepBy (String '','') (String ''a'') ?v
      = Some (Inr (OVector [OString ''a'', OString ''a'', OString ''a''], True, Pop ?v 6))"
    by blast
  with t have "SepBy_rounds (String '','') (String ''a'') ?v
      [OString ''a'', OString ''a'', OString ''a''] (Pop ?v 6)"
    by blast
  moreover have "Offset (position (Pop ?v 6)) = 6"
    by (simp add: Pop_def example_vessel_def)
  moreover have "SepBy (String []) (String []) (example_vessel ''a'') = None"
  proof -
    have "\<forall>v :: nat StringVessel. \<exists>out' v'. String [] v = Some (Inr (out', True, v'))"
      by (simp add: String_empty)
    with SepBy_returns_iff [of "String []" "String []" "example_vessel ''a''"]
    show ?thesis by blast
  qed
  ultimately show ?thesis
    using r by blast
qed

text \<open>
  C7 as stated, with every delimiter and parser and "always", fails when neither parser
  ever fails: with \<open>String("")\<close> for both, \<open>SepBy\<close> runs for ever.
\<close>

theorem SepBy_String_empty_never_returns:
  "SepBy (String []) (String []) (example_vessel ''a,a,a,'') = None"
proof (cases "SepBy_loop (String []) (String []) [] (example_vessel ''a,a,a,'')")
  case None
  then show ?thesis by (simp add: SepBy_def)
next
  case (Some r)
  from SepBy_loop_never_returns [OF this] show ?thesis
    by (simp add: String_empty)
qed

section \<open>String\<close>

text \<open>The code points of a string do not depend on where its byte indices start.\<close>

lemma range_string_shift:
  "map snd (range_string a s) = map snd (range_string b s)"
proof (induction a s arbitrary: b rule: range_string.induct)
  case (1 o')
  show ?case by simp
next
  case (2 o' c s)
  from 2 [of "b + snd (DecodeRuneInString (c # s))"] show ?case by simp
qed

text \<open>A string of ASCII bytes has as many elements as bytes.\<close>

lemma runes_Cons_ascii:
  assumes "byte c < 0x80"
  shows "runes (c # s) = int (byte c) # runes s"
proof -
  have "DecodeRuneInString (c # s) = (int (byte c), 1)"
    using assms by (simp add: Let_def)
  then show ?thesis
    using range_string_shift [of 1 s 0] by (simp add: runes_def)
qed

lemma length_runes_ascii:
  "\<forall>c\<in>set s. byte c < 0x80 \<Longrightarrow> length (runes s) = length s"
proof (induction s)
  case Nil
  show ?case by (simp add: runes_def)
next
  case (Cons c s)
  then show ?case by (simp add: runes_Cons_ascii)
qed

text \<open>
  For an ASCII literal, \<open>String\<close> succeeds exactly when the remaining input begins
  with it, advances the offset by the number of its elements, and otherwise leaves the
  vessel as it was.
\<close>

lemma String_ascii:
  assumes "\<forall>c\<in>set str. byte c < 0x80"
  shows "String str ves =
     (if HasPrefix (GetInput ves) str
      then Some (Inr (OString str, True,
                      ves\<lparr>position := (position ves)
                            \<lparr>Offset := Offset (position ves) + int (length (runes str))\<rparr>\<rparr>))
      else Some (Inr (ONil, False, ves)))"
  using length_runes_ascii [OF assms] by (simp add: String_def Pop_def)

text \<open>
  C3. The offset counts elements (\<open>GetInput\<close> and \<open>Next\<close> walk the input code point
  by code point), but \<open>String\<close> advances it by \<open>len(str)\<close>, a number of bytes. On the
  input \<open>e-acute a\<close> (the bytes C3 A9 61) the literal \<open>e-acute\<close> (bytes C3 A9, one element)
  matches and the offset goes from 0 to 2, not to 1: the remaining input is then empty,
  where one element further it is \<open>a\<close>.
\<close>

theorem String_advances_by_bytes:
  "String [CHR 0xC3, CHR 0xA9] (example_vessel [CHR 0xC3, CHR 0xA9, CHR ''a''])
     = Some (Inr (OString [CHR 0xC3, CHR 0xA9], True,
                  Pop (example_vessel [CHR 0xC3, CHR 0xA9, CHR ''a'']) 2))
   \<and> Offset (position (Pop (example_vessel [CHR 0xC3, CHR 0xA9, CHR ''a'']) 2)) = 2
   \<and> runes [CHR 0xC3, CHR 0xA9] = [0xE9]
   \<and> GetInput (Pop (example_vessel [CHR 0xC3, CHR 0xA9, CHR ''a'']) 1) = ''a''
   \<and> GetInput (Pop (example_vessel [CHR 0xC3, CHR 0xA9, CHR ''a'']) 2) = []"
  by code_simp

section \<open>Get\<close>

text \<open>
  What the loop of \<open>Get\<close> collects: once the counter has reached the offset, the
  elements up to and including the one at \<open>offset + i\<close>.
\<close>

lemma Get_loop_collect:
  "off \<le> n \<Longrightarrow> n \<le> off + i + 1 \<Longrightarrow>
     Get_loop off i n s rs
       = s @ concat (map EncodeRune (take (nat (off + i + 1 - n)) (map snd rs)))"
proof (induction rs arbitrary: n s)
  case Nil
  show ?case by simp
next
  case (Cons r rs)
  obtain o' v where r: "r = (o', v)" by (cases r)
  show ?case
  proof (cases "n > off + i")
    case True
    with Cons.prems have "n = off + i + 1" by simp
    with Cons.prems show ?thesis by (simp add: r)
  next
    case False
    then have "nat (off + i + 1 - n) = Suc (nat (off + i + 1 - (n + 1)))"
      by simp
    with False Cons.prems Cons.IH [of "n + 1" "s @ EncodeRune v"] show ?thesis
      by (simp add: r)
  qed
qed

lemma Get_loop_skip:
  "n \<le> off \<Longrightarrow> 0 \<le> i \<Longrightarrow>
     Get_loop off i n s rs
       = s @ concat (map EncodeRune (take (nat i + 1) (drop (nat (off - n)) (map snd rs))))"
proof (induction rs arbitrary: n)
  case Nil
  show ?case by simp
next
  case (Cons r rs)
  obtain o' v where r: "r = (o', v)" by (cases r)
  show ?case
  proof (cases "n = off")
    case True
    with Cons.prems Get_loop_collect [of off n i s "r # rs"] show ?thesis
      by (simp add: nat_add_distrib)
  next
    case False
    with Cons.prems have "nat (off - n) = Suc (nat (off - (n + 1)))" by simp
    with False Cons.prems Cons.IH [of "n + 1"] show ?thesis
      by (simp add: r)
  qed
qed

text \<open>
  So \<open>Get i\<close> yields up to \<open>i + 1\<close> elements, and its test compares the offset, a
  number of elements, with the length of the input in bytes.
\<close>

lemma Get_eq:
  assumes "0 \<le> Offset (position ves)" and "0 \<le> i"
  shows "Get ves i =
     (if int (length (input ves)) < Offset (position ves) + i then ([], False)
      else (concat (map EncodeRune (take (nat i + 1) (pending ves))), True))"
  using assms Get_loop_skip [of 0 "Offset (position ves)" i "[]" "range_string 0 (input ves)"]
  by (simp add: Get_def pending_def runes_def)

text \<open>
  C4. \<open>Get(1)\<close> at offset 0 of \<open>abc\<close> returns the two elements \<open>ab\<close>, not the
  one next element: the loop stops only once the counter is past \<open>offset + i\<close>. And
  \<open>Get(2)\<close> on the one-element input \<open>e-acute\<close> (two bytes) reports success, its test
  being on the byte length.
\<close>

theorem Get_returns_one_element_too_many:
  "Get (example_vessel ''abc'') 1 = (''ab'', True)
   \<and> runes ''abc'' = [0x61, 0x62, 0x63]
   \<and> Get (example_vessel [CHR 0xC3, CHR 0xA9]) 2 = ([CHR 0xC3, CHR 0xA9], True)
   \<and> runes [CHR 0xC3, CHR 0xA9] = [0xE9]"
  by code_simp

section \<open>Whitespace and Lexeme\<close>

text \<open>
  \<open>Many\<close> of a \<open>Satisfy\<close> parser always returns: it takes the longest run of
  remaining elements that satisfy the check.
\<close>

lemma Many_loop_Satisfy:
  "Many_loop (Satisfy check) acc ves =
     Some (Inr (acc @ map OInt (takeWhile check (pending ves)),
                Pop ves (int (length (takeWhile check (pending ves))))))"
proof (induction xs \<equiv> "pending ves" arbitrary: ves acc)
  case Nil
  then show ?case
    by (subst Many_loop.simps) (simp add: Satisfy_eq Pop_0 flip: Nil)
next
  case (Cons x xs)
  have p: "pending ves = x # xs" using Cons.hyps(2) by simp
  show ?case
  proof (cases "check x")
    case True
    have "xs = pending (Pop ves 1)" using pending_Pop [OF p] by simp
    from Cons.hyps(1) [OF this, of "acc @ [OInt x]"] True p pending_Pop [OF p]
    show ?thesis
      by (subst Many_loop.simps) (simp add: Satisfy_eq Pop_Pop)
  next
    case False
    with p show ?thesis
      by (subst Many_loop.simps) (simp add: Satisfy_eq Pop_0)
  qed
qed

lemma Many_Satisfy:
  "Many (Satisfy check) ves =
     Some (Inr (OSlice (map OInt (takeWhile check (pending ves))), True,
                Pop ves (int (length (takeWhile check (pending ves))))))"
  by (simp add: Many_def Many_loop_Satisfy)

lemma pending_Pop_drop:
  "n \<le> length (pending ves) \<Longrightarrow> pending (Pop ves (int n)) = drop n (pending ves)"
proof (induction n arbitrary: ves)
  case 0
  show ?case by (simp add: Pop_0)
next
  case (Suc n)
  then obtain x xs where p: "pending ves = x # xs"
    by (cases "pending ves") auto
  from Suc.prems p have "n \<le> length (pending (Pop ves 1))"
    by (simp add: pending_Pop [OF p])
  from Suc.IH [OF this] show ?case
    by (simp add: Pop_Pop pending_Pop [OF p] p)
qed

text \<open>
  C9. Whenever \<open>match\<close> returns, with success or with failure, \<open>Lexeme match\<close> then
  runs \<open>Whitespace\<close> on the vessel \<open>match\<close> left, which always returns, and gives back
  the output and the match flag of \<open>match\<close> unchanged. The vessel it leaves is the one
  \<open>Whitespace\<close> leaves: the offset moved past the run of whitespace that follows, so
  that the first remaining element, if any, is not whitespace.
\<close>

theorem Lexeme_always_skips_whitespace:
  assumes "match ves = Some (Inr (out, matched, ves1))"
  shows "\<exists>ws ves2. Whitespace ves1 = Some (Inr (ws, True, ves2))
           \<and> Lexeme match ves = Some (Inr (out, matched, ves2))
           \<and> ves2 = Pop ves1 (int (length (takeWhile unicode_IsSpace (pending ves1))))
           \<and> pending ves2 = dropWhile unicode_IsSpace (pending ves1)"
proof -
  let ?n = "length (takeWhile unicode_IsSpace (pending ves1))"
  have w: "Whitespace ves1
      = Some (Inr (OSlice (map OInt (takeWhile unicode_IsSpace (pending ves1))), True,
                   Pop ves1 (int ?n)))"
    by (simp add: Whitespace_def Many_Satisfy)
  have "?n \<le> length (pending ves1)"
    by (simp add: length_takeWhile_le)
  then have "pending (Pop ves1 (int ?n)) = dropWhile unicode_IsSpace (pending ves1)"
    by (simp add: pending_Pop_drop dropWhile_eq_drop)
  with w assms show ?thesis
    by (simp add: Lexeme_def)
qed

theorem Lexeme_always_skips_whitespace_witness:
  "Lexeme (String ''ab'') (example_vessel ''ab  cd'')
     = Some (Inr (OString ''ab'', True, Pop (example_vessel ''ab  cd'') 4))
   \<and> Lexeme (String ''x'') (example_vessel ''  cd'')
     = Some (Inr (ONil, False, Pop (example_vessel ''  cd'') 2))"
proof -
  let ?v = "example_vessel ''ab  cd''"
  let ?u = "example_vessel ''  cd''"
  have m: "String ''ab'' ?v = Some (Inr (OString ''ab'', True, Pop ?v 2))"
    by code_simp
  have f: "String ''x'' ?u = Some (Inr (ONil, False, ?u))"
    by code_simp
  have pv: "length (takeWhile unicode_IsSpace (pending (Pop ?v 2))) = 2"
    by code_simp
  have pu: "length (takeWhile unicode_IsSpace (pending ?u)) = 2"
    by code_simp
  from Lexeme_always_skips_whitespace [of "String ''ab''" ?v, OF m]
    Lexeme_always_skips_whitespace [of "String ''x''" ?u, OF f]
  show ?thesis
    by (simp add: pv pu Pop_Pop)
qed

section \<open>Collect and Between\<close>

lemma Collect3:
  "Collect_p [p1, p2, p3] ves =
     (case p1 ves of
        None \<Rightarrow> None
      | Some (Inl e) \<Rightarrow> Some (Inl e)
      | Some (Inr (o1, ok1, ves1)) \<Rightarrow>
          if \<not> ok1 then Some (Inr (ONil, False, ves1))
          else
            (case p2 ves1 of
               None \<Rightarrow> None
             | Some (Inl e) \<Rightarrow> Some (Inl e)
             | Some (Inr (o2, ok2, ves2)) \<Rightarrow>
                 if \<not> ok2 then Some (Inr (ONil, False, ves2))
                 else
                   (case p3 ves2 of
                      None \<Rightarrow> None
                    | Some (Inl e) \<Rightarrow> Some (Inl e)
                    | Some (Inr (o3, ok3, ves3)) \<Rightarrow>
                        if \<not> ok3 then Some (Inr (ONil, False, ves3))
                        else Some (Inr (OVector [o1, o2, o3], True, ves3)))))"
  by (simp add: Collect_p_def split: option.splits sum.splits)

lemma Collect3_shape:
  assumes "Collect_p [p1, p2, p3] ves = Some (Inr (out, ok, ves'))"
  shows "if ok
         then \<exists>o1 o2 o3 ves1 ves2. out = OVector [o1, o2, o3]
                \<and> p1 ves = Some (Inr (o1, True, ves1))
                \<and> p2 ves1 = Some (Inr (o2, True, ves2))
                \<and> p3 ves2 = Some (Inr (o3, True, ves'))
         else out = ONil"
  using assms
  by (auto simp: Collect3 split: option.splits sum.splits if_splits)

lemma Try_eq:
  "Try match ves =
     (case match ves of
        None \<Rightarrow> None
      | Some (Inl e) \<Rightarrow> Some (Inl e)
      | Some (Inr (out, ok, ves1)) \<Rightarrow>
          Some (Inr (out, ok,
                     if ok then ves1 else ves1\<lparr>state := state ves, position := position ves\<rparr>)))"
  by (simp add: Try_def GetState_def GetPosition_def SetState_def SetPosition_def
      split: option.splits sum.splits)

text \<open>
  C6. \<open>Between begin end match\<close> is \<open>Try\<close> of \<open>Collect\<close> of the three parsers, in
  the order begin, match, end, with the output reduced to the middle element of the
  collected vector: it returns, panics or runs for ever as that parser does, with the
  same match flag and the same vessel, and its own type assertion and index never panic.
  When the three parsers succeed in sequence, the output is the output of \<open>match\<close>
  alone. When the sequence fails at any of the three, \<open>Between\<close> fails with state and
  position as they were before the call.
\<close>

theorem Between_is_Try_Collect:
  "Between begin_p end_p match ves =
     (case Try (Collect_p [begin_p, match, end_p]) ves of
        None \<Rightarrow> None
      | Some (Inl e) \<Rightarrow> Some (Inl e)
      | Some (Inr (out, ok, ves1)) \<Rightarrow>
          Some (Inr (case out of OVector [b, m, e] \<Rightarrow> m | _ \<Rightarrow> ONil, ok, ves1)))
   \<and> (\<forall>out ves1. Between begin_p end_p match ves = Some (Inr (out, False, ves1))
         \<longrightarrow> out = ONil \<and> GetState ves1 = GetState ves \<and> GetPosition ves1 = GetPosition ves)
   \<and> (\<forall>out ves1. Collect_p [begin_p, match, end_p] ves = Some (Inr (out, False, ves1))
         \<longrightarrow> Between begin_p end_p match ves
               = Some (Inr (ONil, False, ves1\<lparr>state := state ves, position := position ves\<rparr>)))
   \<and> (\<forall>b m e ves1 ves2 ves3.
         begin_p ves = Some (Inr (b, True, ves1)) \<and> match ves1 = Some (Inr (m, True, ves2))
           \<and> end_p ves2 = Some (Inr (e, True, ves3))
         \<longrightarrow> Try (Collect_p [begin_p, match, end_p]) ves = Some (Inr (OVector [b, m, e], True, ves3))
             \<and> Between begin_p end_p match ves = Some (Inr (m, True, ves3)))"
proof (intro conjI allI impI)
  let ?c = "Collect_p [begin_p, match, end_p]"
  show eq: "Between begin_p end_p match ves =
     (case Try ?c ves of
        None \<Rightarrow> None
      | Some (Inl e) \<Rightarrow> Some (Inl e)
      | Some (Inr (out, ok, ves1)) \<Rightarrow>
          Some (Inr (case out of OVector [b, m, e] \<Rightarrow> m | _ \<Rightarrow> ONil, ok, ves1)))"
  proof (cases "?c ves")
    case None
    then show ?thesis by (simp add: Between_def Try_eq)
  next
    case (Some a)
    show ?thesis
    proof (cases a)
      case (Inl e)
      with Some show ?thesis by (simp add: Between_def Try_eq)
    next
      case (Inr r)
      obtain out ok ves' where r: "r = (out, ok, ves')" by (cases r)
      from Collect3_shape [of begin_p match end_p ves out ok ves'] Some Inr r
      show ?thesis
        by (cases ok) (auto simp: Between_def Try_eq)
    qed
  qed
  {
    fix out ves1
    assume "Between begin_p end_p match ves = Some (Inr (out, False, ves1))"
    then obtain out' ves' where c: "?c ves = Some (Inr (out', False, ves'))"
      and v: "ves1 = ves'\<lparr>state := state ves, position := position ves\<rparr>"
      and o: "out = (case out' of OVector [b, m, e] \<Rightarrow> m | _ \<Rightarrow> ONil)"
      by (auto simp: eq Try_eq split: option.splits sum.splits if_splits)
    from Collect3_shape [OF c] have "out' = ONil" by simp
    with o v show "out = ONil" and "GetState ves1 = GetState ves"
      and "GetPosition ves1 = GetPosition ves"
      by (simp_all add: GetState_def GetPosition_def)
  }
  {
    fix out ves1
    assume c: "?c ves = Some (Inr (out, False, ves1))"
    from Collect3_shape [OF c] c
    show "Between begin_p end_p match ves
            = Some (Inr (ONil, False, ves1\<lparr>state := state ves, position := position ves\<rparr>))"
      by (simp add: eq Try_eq)
  }
  {
    fix b m e ves1 ves2 ves3
    assume "begin_p ves = Some (Inr (b, True, ves1)) \<and> match ves1 = Some (Inr (m, True, ves2))
           \<and> end_p ves2 = Some (Inr (e, True, ves3))"
    then have c: "?c ves = Some (Inr (OVector [b, m, e], True, ves3))"
      by (simp add: Collect3)
    then show "Try ?c ves = Some (Inr (OVector [b, m, e], True, ves3))"
      by (simp add: Try_eq)
    with c show "Between begin_p end_p match ves = Some (Inr (m, True, ves3))"
      by (simp add: eq)
  }
qed

theorem Between_is_Try_Collect_witness:
  "Between (Symbol ''('') (Symbol '')'') (Identifier example_funcs)
       (example_vessel ''(foo) rest'')
     = Some (Inr (OString ''foo'', True, Pop (example_vessel ''(foo) rest'') 6))
   \<and> Collect_p [Symbol ''('', Identifier example_funcs, Symbol '')'']
       (example_vessel ''(foo rest'')
     = Some (Inr (ONil, False, Pop (example_vessel ''(foo rest'') 5))
   \<and> Between (Symbol ''('') (Symbol '')'') (Identifier example_funcs)
       (example_vessel ''(foo rest'')
     = Some (Inr (ONil, False, example_vessel ''(foo rest''))"
proof -
  let ?v = "example_vessel ''(foo) rest''"
  let ?u = "example_vessel ''(foo rest''"
  have b: "Symbol ''('' ?v = Some (Inr (OString ''('', True, Pop ?v 1))"
    by code_simp
  have m: "Identifier example_funcs (Pop ?v 1) = Some (Inr (OString ''foo'', True, Pop ?v 4))"
    by code_simp
  have e: "Symbol '')'' (Pop ?v 4) = Some (Inr (OString '')'', True, Pop ?v 6))"
    by code_simp
  have c: "Collect_p [Symbol ''('', Identifier example_funcs, Symbol '')''] ?u
             = Some (Inr (ONil, False, Pop ?u 5))"
    by code_simp
  have u: "(Pop ?u 5)\<lparr>state := state ?u, position := position ?u\<rparr> = ?u"
    by (simp add: Pop_def)
  note t = Between_is_Try_Collect [of "Symbol ''(''" "Symbol '')''" "Identifier example_funcs"]
  from t [of ?v] b m e
  have "Between (Symbol ''('') (Symbol '')'') (Identifier example_funcs) ?v
          = Some (Inr (OString ''foo'', True, Pop ?v 6))"
    by blast
  moreover from t [of ?u] c
  have "Between (Symbol ''('') (Symbol '')'') (Identifier example_funcs) ?u
          = Some (Inr (ONil, False, (Pop ?u 5)\<lparr>state := state ?u, position := position ?u\<rparr>))"
    by blast
  ultimately show ?thesis
    using c u by simp
qed

section \<open>Identifier\<close>







section \<open>The frame: input and Spec\<close>

lemma keeps_frameI:
  "(\<And>ves out ok ves1. p ves = Some (Inr (out, ok, ves1))
      \<Longrightarrow> input ves1 = input ves \<and> spec ves1 = spec ves) \<Longrightarrow> keeps_frame p"
  by (simp add: keeps_frame_def)

lemma keeps_frameD:
  "keeps_frame p \<Longrightarrow> p ves = Some (Inr (out, ok, ves1))
     \<Longrightarrow> input ves1 = input ves \<and> spec ves1 = spec ves"
  by (simp add: keeps_frame_def)

lemma frame_Satisfy: "keeps_frame (Satisfy check)"
  by (rule keeps_frameI) (auto simp: Satisfy_def Pop_def split: prod.splits if_splits)

lemma frame_String: "keeps_frame (String str)"
  by (rule keeps_frameI) (auto simp: String_def Pop_def split: if_splits)

lemma frame_Try: "keeps_frame p \<Longrightarrow> keeps_frame (Try p)"
  by (rule keeps_frameI)
     (auto simp: Try_eq dest: keeps_frameD split: option.splits sum.splits if_splits)

lemma frame_Many_rounds:
  "Many_rounds p ves outs ves1 \<Longrightarrow> keeps_frame p
     \<Longrightarrow> input ves1 = input ves \<and> spec ves1 = spec ves"
  by (induction rule: Many_rounds.induct) (auto dest: keeps_frameD)

lemma frame_SepBy_rounds:
  "SepBy_rounds d p ves outs ves1 \<Longrightarrow> keeps_frame d \<Longrightarrow> keeps_frame p
     \<Longrightarrow> input ves1 = input ves \<and> spec ves1 = spec ves"
proof (induction rule: SepBy_rounds.induct)
  case (SepBy_match_fails ves out ves1)
  from keeps_frameD [OF SepBy_match_fails(3) SepBy_match_fails(1)] show ?case .
next
  case (SepBy_delim_fails ves out ves1 d' ves2)
  from keeps_frameD [OF SepBy_delim_fails(4) SepBy_delim_fails(1)]
    keeps_frameD [OF SepBy_delim_fails(3) SepBy_delim_fails(2)]
  show ?case by simp
next
  case (SepBy_round ves out ves1 d' ves2 outs ves3)
  from keeps_frameD [OF SepBy_round.prems(2) SepBy_round.hyps(1)]
    keeps_frameD [OF SepBy_round.prems(1) SepBy_round.hyps(2)]
    SepBy_round.IH [OF SepBy_round.prems]
  show ?case by simp
qed

lemma frame_Many: "keeps_frame p \<Longrightarrow> keeps_frame (Many p)"
proof (rule keeps_frameI)
  fix ves out ok ves1
  assume k: "keeps_frame p" and m: "Many p ves = Some (Inr (out, ok, ves1))"
  then obtain ms where "Many_loop p [] ves = Some (Inr (ms, ves1))"
    by (auto simp: Many_def split: option.splits sum.splits)
  from Many_loop_returns [OF this] have "Many_rounds p ves ms ves1" by simp
  from frame_Many_rounds [OF this k] show "input ves1 = input ves \<and> spec ves1 = spec ves" .
qed

lemma frame_SepBy: "keeps_frame d \<Longrightarrow> keeps_frame p \<Longrightarrow> keeps_frame (SepBy d p)"
proof (rule keeps_frameI)
  fix ves out ok ves1
  assume kd: "keeps_frame d" and kp: "keeps_frame p"
    and m: "SepBy d p ves = Some (Inr (out, ok, ves1))"
  then obtain ms where "SepBy_loop d p [] ves = Some (Inr (ms, ves1))"
    by (auto simp: SepBy_def split: option.splits sum.splits)
  from SepBy_loop_returns [OF this] have "SepBy_rounds d p ves ms ves1" by simp
  from frame_SepBy_rounds [OF this kd kp]
  show "input ves1 = input ves \<and> spec ves1 = spec ves" .
qed

lemma frame_Whitespace: "keeps_frame Whitespace"
  using frame_Many [OF frame_Satisfy [of unicode_IsSpace]]
  by (simp add: keeps_frame_def Whitespace_def)

lemma frame_Lexeme: "keeps_frame p \<Longrightarrow> keeps_frame (Lexeme p)"
proof (rule keeps_frameI)
  fix ves out ok ves2
  assume k: "keeps_frame p" and l: "Lexeme p ves = Some (Inr (out, ok, ves2))"
  then obtain ves1 ws okw where p: "p ves = Some (Inr (out, ok, ves1))"
    and w: "Whitespace ves1 = Some (Inr (ws, okw, ves2))"
    by (auto simp: Lexeme_def split: option.splits sum.splits)
  from keeps_frameD [OF k p] keeps_frameD [OF frame_Whitespace w]
  show "input ves2 = input ves \<and> spec ves2 = spec ves" by simp
qed

lemma frame_Any: "\<forall>p\<in>set ps. keeps_frame p \<Longrightarrow> keeps_frame (Any ps)"
proof (induction ps)
  case Nil
  show ?case by (rule keeps_frameI) simp
next
  case (Cons p ps)
  then have kp: "keeps_frame p" and ks: "keeps_frame (Any ps)" by simp_all
  show ?case
  proof (rule keeps_frameI)
    fix ves out ok ves1
    assume "Any (p # ps) ves = Some (Inr (out, ok, ves1))"
    then show "input ves1 = input ves \<and> spec ves1 = spec ves"
      using keeps_frameD [OF kp] keeps_frameD [OF ks]
      by (fastforce split: option.splits sum.splits if_splits)
  qed
qed

lemma frame_All_loop:
  "\<forall>p\<in>set ps. keeps_frame p \<Longrightarrow> keeps_frame (All_loop match ok ps)"
proof (induction ps arbitrary: match ok)
  case Nil
  show ?case by (rule keeps_frameI) simp
next
  case (Cons p ps)
  then have kp: "keeps_frame p"
    and ks: "\<And>match ok. keeps_frame (All_loop match ok ps)" by simp_all
  show ?case
  proof (rule keeps_frameI)
    fix ves out ok' ves1
    assume "All_loop match ok (p # ps) ves = Some (Inr (out, ok', ves1))"
    then show "input ves1 = input ves \<and> spec ves1 = spec ves"
      using keeps_frameD [OF kp] keeps_frameD [OF ks]
      by (fastforce split: option.splits sum.splits if_splits)
  qed
qed

lemma frame_Collect_loop:
  "\<forall>p\<in>set ps. keeps_frame p \<Longrightarrow> keeps_frame (Collect_loop matches ps)"
proof (induction ps arbitrary: matches)
  case Nil
  show ?case by (rule keeps_frameI) simp
next
  case (Cons p ps)
  then have kp: "keeps_frame p"
    and ks: "\<And>matches. keeps_frame (Collect_loop matches ps)" by simp_all
  show ?case
  proof (rule keeps_frameI)
    fix ves out ok' ves1
    assume "Collect_loop matches (p # ps) ves = Some (Inr (out, ok', ves1))"
    then show "input ves1 = input ves \<and> spec ves1 = spec ves"
      using keeps_frameD [OF kp] keeps_frameD [OF ks]
      by (fastforce split: option.splits sum.splits if_splits)
  qed
qed

lemma frame_All: "\<forall>p\<in>set ps. keeps_frame p \<Longrightarrow> keeps_frame (All_p ps)"
  using frame_All_loop [of ps ONil False] by (simp add: keeps_frame_def All_p_def)

lemma frame_Collect: "\<forall>p\<in>set ps. keeps_frame p \<Longrightarrow> keeps_frame (Collect_p ps)"
  using frame_Collect_loop [of ps "[]"] by (simp add: keeps_frame_def Collect_p_def)

lemma frame_Between:
  assumes "keeps_frame b" and "keeps_frame e" and "keeps_frame p"
  shows "keeps_frame (Between b e p)"
proof (rule keeps_frameI)
  fix ves out ok ves1
  assume bt: "Between b e p ves = Some (Inr (out, ok, ves1))"
  have "keeps_frame (Try (Collect_p [b, p, e]))"
    using assms by (simp add: frame_Try frame_Collect)
  moreover from bt obtain out' where "Try (Collect_p [b, p, e]) ves = Some (Inr (out', ok, ves1))"
    by (auto simp: Between_def split: option.splits sum.splits if_splits Output.splits)
  ultimately show "input ves1 = input ves \<and> spec ves1 = spec ves"
    by (rule keeps_frameD)
qed

lemma frame_Identifier:
  assumes "\<forall>f. keeps_frame (call funcs f)"
  shows "keeps_frame (Identifier funcs)"
proof (rule keeps_frameI)
  fix ves out ok ves2
  assume i: "Identifier funcs ves = Some (Inr (out, ok, ves2))"
  let ?start = "call funcs (IdentStart (GetSpec ves))"
  let ?letter = "call funcs (IdentLetter (GetSpec ves))"
  from i obtain n ok1 ves1 where s: "?start ves = Some (Inr (n, ok1, ves1))"
    by (auto simp: Identifier_def Let_def split: option.splits sum.splits)
  have ks: "keeps_frame ?start" and km: "keeps_frame (Many ?letter)"
    using assms by (simp_all add: frame_Many)
  show "input ves2 = input ves \<and> spec ves2 = spec ves"
  proof (cases ok1)
    case False
    with i s have "ves2 = ves1" by (simp add: Identifier_def Let_def)
    with keeps_frameD [OF ks s] show ?thesis by simp
  next
    case True
    with i s obtain ns ok2 where m: "Many ?letter ves1 = Some (Inr (ns, ok2, ves2))"
      by (auto simp: Identifier_def Let_def
          split: option.splits sum.splits if_splits Output.splits)
    from keeps_frameD [OF ks s] keeps_frameD [OF km m] show ?thesis by simp
  qed
qed

lemma frame_R: "\<forall>f. keeps_frame (call funcs f) \<Longrightarrow> keeps_frame (R funcs parser)"
  by (simp add: keeps_frame_def R_def)

text \<open>
  C10. No combinator of the library changes the vessel's input string or its Spec, on
  success or on failure: the primitive parsers (\<open>Satisfy\<close>, \<open>String\<close>, \<open>Symbol\<close>,
  \<open>Whitespace\<close>) never do, and a combinator built from parsers that keep input and Spec
  keeps them too (\<open>Many\<close>, \<open>Try\<close>, \<open>Lexeme\<close>, \<open>Parens\<close>, \<open>SepBy\<close>, \<open>Any\<close>,
  \<open>All\<close>, \<open>Collect\<close>, \<open>Between\<close>, and \<open>Identifier\<close> and \<open>R\<close> for the parsers
  they call through a function value). What a returning call may change is the position
  and the user state only.
\<close>

theorem combinators_keep_input_and_spec:
  "keeps_frame (Satisfy check)
   \<and> keeps_frame (String str)
   \<and> keeps_frame (Symbol str)
   \<and> keeps_frame Whitespace
   \<and> (keeps_frame p \<longrightarrow>
        keeps_frame (Many p) \<and> keeps_frame (Try p) \<and> keeps_frame (Lexeme p)
        \<and> keeps_frame (Parens p))
   \<and> (keeps_frame d \<and> keeps_frame p \<longrightarrow> keeps_frame (SepBy d p))
   \<and> ((\<forall>q\<in>set ps. keeps_frame q) \<longrightarrow>
        keeps_frame (Any ps) \<and> keeps_frame (All_p ps) \<and> keeps_frame (Collect_p ps))
   \<and> (keeps_frame b \<and> keeps_frame e \<and> keeps_frame p \<longrightarrow> keeps_frame (Between b e p))
   \<and> ((\<forall>f. keeps_frame (call funcs f)) \<longrightarrow>
        keeps_frame (Identifier funcs) \<and> keeps_frame (R funcs parser))"
proof -
  have sym: "keeps_frame (Symbol s)" for s :: string
    by (simp add: Symbol_def frame_Lexeme frame_String)
  have "keeps_frame (Parens p)" if "keeps_frame p"
    using that by (simp add: Parens_def frame_Lexeme frame_Between sym)
  with sym show ?thesis
    by (simp add: frame_Satisfy frame_String frame_Whitespace frame_Many frame_Try
        frame_Lexeme frame_SepBy frame_Any frame_All frame_Collect frame_Between
        frame_Identifier frame_R)
qed


theorem combinators_keep_input_and_spec_witness:
  "keeps_frame
     (Parens (Many (Any [Identifier example_funcs,
                         Try (SepBy (Symbol '','') (R example_funcs 0)),
                         All_p [Whitespace, Collect_p [Satisfy is_letter, String ''x'']],
                         Between (String ''['') (String '']'') (Lexeme (Satisfy is_letter))])))"
proof -
  note T = combinators_keep_input_and_spec
  have sat: "keeps_frame (Satisfy c :: nat Parser)" for c
    using T [where check = c] by blast
  have str: "keeps_frame (String s :: nat Parser)" for s
    using T [where str = s] by blast
  have sym: "keeps_frame (Symbol s :: nat Parser)" for s
    using T [where str = s] by blast
  have ws: "keeps_frame (Whitespace :: nat Parser)"
    using T by blast
  have cf: "\<forall>f. keeps_frame (call example_funcs f)"
  proof
    fix f
    have "call example_funcs f = Satisfy is_letter
        \<or> call example_funcs f = Satisfy is_letter_or_digit
        \<or> call example_funcs f = (\<lambda>ves. Some (Inl NilFunc))"
      by (auto simp: call_def example_funcs_def fun_eq_iff)
    moreover have "keeps_frame (\<lambda>ves :: nat StringVessel. Some (Inl NilFunc))"
      by (simp add: keeps_frame_def)
    ultimately show "keeps_frame (call example_funcs f)"
      using sat by auto
  qed
  have ident: "keeps_frame (Identifier example_funcs)"
    and r0: "keeps_frame (R example_funcs 0)"
    using T [where funcs = example_funcs and parser = 0] cf by blast+
  have sep: "keeps_frame (SepBy (Symbol '','') (R example_funcs 0))"
    using T [where d = "Symbol '',''" and p = "R example_funcs 0"] sym r0 by blast
  have tr: "keeps_frame (Try (SepBy (Symbol '','') (R example_funcs 0)))"
    using T [where p = "SepBy (Symbol '','') (R example_funcs 0)"] sep by blast
  have col: "keeps_frame (Collect_p [Satisfy is_letter, String ''x''] :: nat Parser)"
  proof -
    have "\<forall>q\<in>set [Satisfy is_letter, String ''x'' :: nat Parser]. keeps_frame q"
      using sat str by simp
    with T [where ps = "[Satisfy is_letter, String ''x'']"] show ?thesis by blast
  qed
  have al: "keeps_frame (All_p [Whitespace, Collect_p [Satisfy is_letter, String ''x'']]
              :: nat Parser)"
  proof -
    have "\<forall>q\<in>set [Whitespace, Collect_p [Satisfy is_letter, String ''x''] :: nat Parser].
            keeps_frame q"
      using ws col by simp
    with T [where ps = "[Whitespace, Collect_p [Satisfy is_letter, String ''x'']]"]
    show ?thesis by blast
  qed
  have lx: "keeps_frame (Lexeme (Satisfy is_letter) :: nat Parser)"
    using T [where p = "Satisfy is_letter"] sat by blast
  have bt: "keeps_frame (Between (String ''['') (String '']'') (Lexeme (Satisfy is_letter))
              :: nat Parser)"
    using T [where b = "String ''[''" and e = "String '']''"
        and p = "Lexeme (Satisfy is_letter)"] str lx by blast
  let ?alts = "[Identifier example_funcs,
                Try (SepBy (Symbol '','') (R example_funcs 0)),
                All_p [Whitespace, Collect_p [Satisfy is_letter, String ''x'']],
                Between (String ''['') (String '']'') (Lexeme (Satisfy is_letter))]"
  have any: "keeps_frame (Any ?alts)"
  proof -
    have "\<forall>q\<in>set ?alts. keeps_frame q"
      using ident tr al bt by simp
    with T [where ps = ?alts] show ?thesis by blast
  qed
  have many: "keeps_frame (Many (Any ?alts))"
    using T [where p = "Any ?alts"] any by blast
  show ?thesis
    using T [where p = "Many (Any ?alts)"] many by blast
qed

end
